theory Spec2Isabelle
  imports Main
begin

section \<open>The container of avlTree.h\<close>

text \<open>
  The header declares \<open>Node\<close> with the links \<open>left\<close> and \<open>right\<close>, \<open>Iterator\<close> with
  \<open>avlTreePtr\<close> and \<open>AvlTree\<close> with \<open>root\<close>, but every member function body reads and
  writes \<open>next\<close>, \<open>previous\<close>, \<open>listPtr\<close> and \<open>head\<close>.  The records below carry the
  names the bodies use (\<open>next\<close> is written \<open>next'\<close>).  The constructor \<open>Node(object, left, right)\<close> is called as
  \<open>Node(data, nullptr, nodeIter)\<close> for a node appended behind \<open>nodeIter\<close> and its
  documentation calls the third parameter \<open>previous\<close>: the second parameter
  (\<open>left\<close>) is the \<open>next\<close> link and the third (\<open>right\<close>) is the \<open>previous\<close> link.

  Nodes live in a store from addresses to node records; a null pointer is \<open>None\<close>.
  An \<open>AvlTree\<close> object is identified by a number and owns one field, \<open>head\<close>.
\<close>

type_synonym addr = nat

type_synonym tid = nat

text \<open>
  The two exceptions of the header, and the two faults of undefined behaviour: a read or
  write through a pointer that references no node, and the end of a function that returns
  a value reached without a \<open>return\<close>.
\<close>

datatype error = ElementNotFound | IllegealOperationException | InvalidPointer | MissingReturn

record 'a Node =
  next' :: "addr option"
  previous :: "addr option"
  data :: 'a

record Iterator =
  node :: "addr option"
  listPtr :: "tid option"

record 'a state =
  heap :: "addr \<Rightarrow> 'a Node option"
  head :: "tid \<Rightarrow> addr option"
  free :: addr

text \<open>The two links under the names of the class declaration.\<close>

definition left :: "'a Node \<Rightarrow> addr option" where
  "left n = next' n"

definition right :: "'a Node \<Rightarrow> addr option" where
  "right n = previous n"

text \<open>No tree exists yet and nothing is allocated.\<close>

definition init :: "'a state" where
  "init = \<lparr>heap = (\<lambda>_. None), head = (\<lambda>_. None), free = 0\<rparr>"

subsection \<open>Memory\<close>

text \<open>
  \<open>new Node<T>(object, left, right)\<close>: the allocator hands out the addresses
  \<open>0, 1, 2, ...\<close> and never reuses one.
\<close>

definition new_Node :: "'a \<Rightarrow> addr option \<Rightarrow> addr option \<Rightarrow> 'a state \<Rightarrow> addr \<times> 'a state" where
  "new_Node object l r s =
     (free s,
      s\<lparr>heap := (heap s)(free s \<mapsto> \<lparr>next' = l, previous = r, data = object\<rparr>),
        free := Suc (free s)\<rparr>)"

text \<open>Reading through a pointer that references no allocated node is a fault of its own.\<close>

definition deref :: "addr \<Rightarrow> 'a state \<Rightarrow> error + 'a Node" where
  "deref a s = (case heap s a of None \<Rightarrow> Inl InvalidPointer | Some n \<Rightarrow> Inr n)"

definition set_next :: "addr \<Rightarrow> addr option \<Rightarrow> 'a state \<Rightarrow> (error + unit) \<times> 'a state" where
  "set_next a v s =
     (case heap s a of
        None \<Rightarrow> (Inl InvalidPointer, s)
      | Some n \<Rightarrow> (Inr (), s\<lparr>heap := (heap s)(a \<mapsto> n\<lparr>next' := v\<rparr>)\<rparr>))"

definition set_previous :: "addr \<Rightarrow> addr option \<Rightarrow> 'a state \<Rightarrow> (error + unit) \<times> 'a state" where
  "set_previous a v s =
     (case heap s a of
        None \<Rightarrow> (Inl InvalidPointer, s)
      | Some n \<Rightarrow> (Inr (), s\<lparr>heap := (heap s)(a \<mapsto> n\<lparr>previous := v\<rparr>)\<rparr>))"

definition delete :: "addr \<Rightarrow> 'a state \<Rightarrow> (error + unit) \<times> 'a state" where
  "delete a s =
     (case heap s a of
        None \<Rightarrow> (Inl InvalidPointer, s)
      | Some n \<Rightarrow> (Inr (), s\<lparr>heap := (heap s)(a := None)\<rparr>))"

text \<open>Sequencing: a statement that throws or faults ends the function with the state so far.\<close>

definition andthen ::
  "(error + unit) \<times> 'a state \<Rightarrow> ('a state \<Rightarrow> (error + unit) \<times> 'a state) \<Rightarrow> (error + unit) \<times> 'a state" where
  "andthen r f = (case r of (Inl e, s) \<Rightarrow> (Inl e, s) | (Inr _, s) \<Rightarrow> f s)"

subsection \<open>Iterator\<close>

definition begin' :: "tid \<Rightarrow> 'a state \<Rightarrow> Iterator" where
  "begin' this s = \<lparr>node = head s this, listPtr = Some this\<rparr>"

definition end' :: "tid \<Rightarrow> Iterator" where
  "end' this = \<lparr>node = None, listPtr = Some this\<rparr>"

text \<open>
  \<open>operator--(int)\<close>: the result is the thrown exception or the returned copy of
  \<open>*this\<close>, paired with \<open>*this\<close> after the call.
\<close>

definition operator_dec :: "Iterator \<Rightarrow> 'a state \<Rightarrow> (error + Iterator) \<times> Iterator" where
  "operator_dec this s =
     (case node this of
        None \<Rightarrow> (Inl IllegealOperationException, this)
      | Some iterNode \<Rightarrow>
          (case deref iterNode s of
             Inl e \<Rightarrow> (Inl e, this)
           | Inr nd \<Rightarrow> (Inr (this\<lparr>node := next' nd\<rparr>), this\<lparr>node := next' nd\<rparr>)))"

text \<open>\<open>operator*\<close>.\<close>

definition operator_star :: "Iterator \<Rightarrow> 'a state \<Rightarrow> error + 'a" where
  "operator_star this s =
     (case node this of
        None \<Rightarrow> Inl ElementNotFound
      | Some iterNode \<Rightarrow>
          (case deref iterNode s of Inl e \<Rightarrow> Inl e | Inr nd \<Rightarrow> Inr (data nd)))"

definition operator_eq :: "Iterator \<Rightarrow> Iterator \<Rightarrow> bool" where
  "operator_eq this iter = (node this = node iter \<and> listPtr this = listPtr iter)"

definition operator_neq :: "Iterator \<Rightarrow> Iterator \<Rightarrow> bool" where
  "operator_neq this iter = (\<not> operator_eq this iter)"

subsection \<open>remove\<close>

text \<open>The four statements of \<open>remove\<close> after its checks, on the node \<open>n\<close> of the iterator.\<close>

definition unlink_previous :: "addr \<Rightarrow> 'a state \<Rightarrow> (error + unit) \<times> 'a state" where
  "unlink_previous n s =
     (case deref n s of
        Inl e \<Rightarrow> (Inl e, s)
      | Inr nd \<Rightarrow>
          (case previous nd of
             None \<Rightarrow> (Inr (), s)
           | Some prev \<Rightarrow> set_next prev (next' nd) s))"

definition unlink_next :: "addr \<Rightarrow> 'a state \<Rightarrow> (error + unit) \<times> 'a state" where
  "unlink_next n s =
     (case deref n s of
        Inl e \<Rightarrow> (Inl e, s)
      | Inr nd \<Rightarrow>
          (case next' nd of
             None \<Rightarrow> (Inr (), s)
           | Some nxt \<Rightarrow> set_previous nxt (previous nd) s))"

definition move_head :: "tid \<Rightarrow> addr \<Rightarrow> 'a state \<Rightarrow> (error + unit) \<times> 'a state" where
  "move_head this n s =
     (case deref n s of
        Inl e \<Rightarrow> (Inl e, s)
      | Inr nd \<Rightarrow>
          (if previous nd = None then (Inr (), s\<lparr>head := (head s)(this := next' nd)\<rparr>)
           else (Inr (), s)))"

definition remove :: "tid \<Rightarrow> Iterator \<Rightarrow> 'a state \<Rightarrow> (error + unit) \<times> 'a state" where
  "remove this iterator s =
     (if head s this = None \<or> node iterator = None then (Inl ElementNotFound, s)
      else if listPtr iterator \<noteq> Some this \<or> listPtr iterator = None then (Inl ElementNotFound, s)
      else
        (case node iterator of
           None \<Rightarrow> (Inl ElementNotFound, s)
         | Some n \<Rightarrow>
             andthen (andthen (andthen (unlink_previous n s) (unlink_next n)) (move_head this n))
               (delete n)))"

subsection \<open>insert\<close>

text \<open>
  The loop \<open>while (nodeIter->next != nullptr) nodeIter = nodeIter->next\<close>; \<open>None\<close> is
  a loop that never ends.
\<close>

partial_function (option) last_Node :: "(addr \<Rightarrow> 'a Node option) \<Rightarrow> addr \<Rightarrow> (error + addr) option" where
  "last_Node h nodeIter =
     (case h nodeIter of
        None \<Rightarrow> Some (Inl InvalidPointer)
      | Some nd \<Rightarrow>
          (case next' nd of
             None \<Rightarrow> Some (Inr nodeIter)
           | Some nxt \<Rightarrow> last_Node h nxt))"

text \<open>The branch of \<open>insert\<close> for an iterator that references a node.\<close>

definition insert_before :: "tid \<Rightarrow> 'a \<Rightarrow> addr \<Rightarrow> 'a state \<Rightarrow> (error + unit) \<times> 'a state" where
  "insert_before this d iteratorNode s =
     (case deref iteratorNode s of
        Inl e \<Rightarrow> (Inl e, s)
      | Inr nd \<Rightarrow>
          (let iteratorPrev = previous nd;
               (newNode, s1) = new_Node d (Some iteratorNode) iteratorPrev s
           in andthen (set_previous iteratorNode (Some newNode) s1)
                (\<lambda>s2. case iteratorPrev of
                         Some p \<Rightarrow> set_next p (Some newNode) s2
                       | None \<Rightarrow> (Inr (), s2\<lparr>head := (head s2)(this := Some newNode)\<rparr>))))"

definition insert' :: "tid \<Rightarrow> 'a \<Rightarrow> Iterator \<Rightarrow> 'a state \<Rightarrow> ((error + unit) \<times> 'a state) option" where
  "insert' this d iterator s =
     (if listPtr iterator \<noteq> Some this then Some (Inl ElementNotFound, s)
      else
        (case node iterator of
           None \<Rightarrow>
             (case head s this of
                None \<Rightarrow>
                  (let (newNode, s1) = new_Node d None None s
                   in Some (Inr (), s1\<lparr>head := (head s1)(this := Some newNode)\<rparr>))
              | Some h \<Rightarrow>
                  (case last_Node (heap s) h of
                     None \<Rightarrow> None
                   | Some (Inl e) \<Rightarrow> Some (Inl e, s)
                   | Some (Inr nodeIter) \<Rightarrow>
                       (let (newNode, s1) = new_Node d None (Some nodeIter) s
                        in Some (set_next nodeIter (Some newNode) s1))))
         | Some iteratorNode \<Rightarrow> Some (insert_before this d iteratorNode s)))"

declare last_Node.simps [code]

text \<open>\<open>this->insert(d, this->end())\<close> for each \<open>d\<close> in turn, stopping at the first failure.\<close>

fun insert_all :: "tid \<Rightarrow> 'a list \<Rightarrow> 'a state \<Rightarrow> ((error + unit) \<times> 'a state) option" where
  "insert_all this [] s = Some (Inr (), s)"
| "insert_all this (d # ds) s =
     (case insert' this d (end' this) s of
        None \<Rightarrow> None
      | Some (Inl e, s1) \<Rightarrow> Some (Inl e, s1)
      | Some (Inr _, s1) \<Rightarrow> insert_all this ds s1)"

subsection \<open>Copying and assignment\<close>

text \<open>
  The loop of the copy constructor over the nodes of the source.  \<open>nodeIter->next\<close> is
  read after the call of \<open>insert\<close>, in the state that call leaves.
\<close>

partial_function (option) copy_loop ::
  "tid \<Rightarrow> addr option \<Rightarrow> Iterator \<Rightarrow> 'a state \<Rightarrow> ((error + unit) \<times> 'a state) option" where
  "copy_loop this nodeIter newListIter s =
     (case nodeIter of
        None \<Rightarrow> Some (Inr (), s)
      | Some a \<Rightarrow>
          (case deref a s of
             Inl e \<Rightarrow> Some (Inl e, s)
           | Inr nd \<Rightarrow>
               (case insert' this (data nd) newListIter s of
                  None \<Rightarrow> None
                | Some (Inl e, s1) \<Rightarrow> Some (Inl e, s1)
                | Some (Inr _, s1) \<Rightarrow>
                    (case deref a s1 of
                       Inl e \<Rightarrow> Some (Inl e, s1)
                     | Inr nd1 \<Rightarrow> copy_loop this (next' nd1) (end' this) s1))))"

text \<open>\<open>AvlTree(AvlTree& avlTree)\<close>; the body calls its parameter \<open>list\<close>.\<close>

definition copy_constructor :: "tid \<Rightarrow> tid \<Rightarrow> 'a state \<Rightarrow> ((error + unit) \<times> 'a state) option" where
  "copy_constructor this list s =
     (let s0 = s\<lparr>head := (head s)(this := None)\<rparr>
      in copy_loop this (head s0 list) (end' this) s0)"

text \<open>The first loop of \<open>operator=\<close>: \<open>while (this->head != nullptr) this->remove(this->begin())\<close>.\<close>

partial_function (option) remove_loop :: "tid \<Rightarrow> 'a state \<Rightarrow> ((error + unit) \<times> 'a state) option" where
  "remove_loop this s =
     (if head s this \<noteq> None then
        (case remove this (begin' this s) s of
           (Inl e, s1) \<Rightarrow> Some (Inl e, s1)
         | (Inr _, s1) \<Rightarrow> remove_loop this s1)
      else Some (Inr (), s))"

text \<open>The second loop of \<open>operator=\<close>.\<close>

partial_function (option) assign_loop ::
  "tid \<Rightarrow> addr option \<Rightarrow> 'a state \<Rightarrow> ((error + unit) \<times> 'a state) option" where
  "assign_loop this nodeIter s =
     (case nodeIter of
        None \<Rightarrow> Some (Inr (), s)
      | Some a \<Rightarrow>
          (case deref a s of
             Inl e \<Rightarrow> Some (Inl e, s)
           | Inr nd \<Rightarrow>
               (case insert' this (data nd) (end' this) s of
                  None \<Rightarrow> None
                | Some (Inl e, s1) \<Rightarrow> Some (Inl e, s1)
                | Some (Inr _, s1) \<Rightarrow>
                    (case deref a s1 of
                       Inl e \<Rightarrow> Some (Inl e, s1)
                     | Inr nd1 \<Rightarrow> assign_loop this (next' nd1) s1))))"

text \<open>
  \<open>operator=\<close>; the body calls its parameter \<open>list\<close> and reads its head as
  \<open>list->head\<close>.  Only the self-assignment path has a \<open>return\<close>: after the second
  loop control flows off the end of a function that returns \<open>AvlTree<T>&\<close>, which is
  undefined behaviour.  The model ends there in the fault \<open>MissingReturn\<close>, with the
  state the two loops leave.
\<close>

definition operator_assign :: "tid \<Rightarrow> tid \<Rightarrow> 'a state \<Rightarrow> ((error + unit) \<times> 'a state) option" where
  "operator_assign this list s =
     (if this = list then Some (Inr (), s)
      else
        (case remove_loop this s of
           None \<Rightarrow> None
         | Some (Inl e, s1) \<Rightarrow> Some (Inl e, s1)
         | Some (Inr _, s1) \<Rightarrow>
             (case assign_loop this (head s1 list) s1 of
                None \<Rightarrow> None
              | Some (Inl e, s2) \<Rightarrow> Some (Inl e, s2)
              | Some (Inr _, s2) \<Rightarrow> Some (Inl MissingReturn, s2))))"

subsection \<open>Stepping forward and find\<close>

text \<open>
  \<open>operator++(int)\<close> copies the iterator, calls the prefix operator on \<open>*this\<close> and
  returns the copy.  The header defines no prefix operator: it is the parameter
  \<open>prefix_inc\<close>, which throws or moves the iterator or never returns, over any kind
  of store.
\<close>

definition operator_inc ::
  "(Iterator \<Rightarrow> 'st \<Rightarrow> (error + Iterator) option) \<Rightarrow> Iterator \<Rightarrow> 'st
     \<Rightarrow> ((error + Iterator) \<times> Iterator) option" where
  "operator_inc prefix_inc this s =
     (let iter = this
      in case prefix_inc this s of
           None \<Rightarrow> None
         | Some (Inl e) \<Rightarrow> Some (Inl e, this)
         | Some (Inr this1) \<Rightarrow> Some (Inr iter, this1))"

text \<open>The \<open>for\<close> loop of \<open>find\<close>, from the test of its condition on.\<close>

partial_function (option) find_loop ::
  "(Iterator \<Rightarrow> 'a state \<Rightarrow> (error + Iterator) option) \<Rightarrow> ('a \<Rightarrow> bool) \<Rightarrow> tid \<Rightarrow> 'a state
     \<Rightarrow> Iterator \<Rightarrow> (error + Iterator) option" where
  "find_loop prefix_inc predicate this s iter =
     (if operator_neq iter (end' this) then
        (case node iter of
           None \<Rightarrow> Some (Inl InvalidPointer)
         | Some iterNode \<Rightarrow>
             (case deref iterNode s of
                Inl e \<Rightarrow> Some (Inl e)
              | Inr nd \<Rightarrow>
                  (if predicate (data nd) then Some (Inr iter)
                   else
                     (case operator_inc prefix_inc iter s of
                        None \<Rightarrow> None
                      | Some (Inl e, _) \<Rightarrow> Some (Inl e)
                      | Some (Inr _, iter1) \<Rightarrow> find_loop prefix_inc predicate this s iter1))))
      else Some (Inr iter))"

definition find' ::
  "(Iterator \<Rightarrow> 'a state \<Rightarrow> (error + Iterator) option) \<Rightarrow> ('a \<Rightarrow> bool) \<Rightarrow> tid \<Rightarrow> 'a state
     \<Rightarrow> (error + Iterator) option" where
  "find' prefix_inc predicate this s = find_loop prefix_inc predicate this s (begin' this s)"

declare copy_loop.simps [code]

declare remove_loop.simps [code]

declare assign_loop.simps [code]

declare find_loop.simps [code]

subsection \<open>Well-formed lists\<close>

text \<open>
  \<open>dll h prev p as\<close>: from the pointer \<open>p\<close> on, the \<open>next\<close> links run through exactly the
  nodes at the addresses \<open>as\<close> and end in null, and each node's \<open>previous\<close> link names
  the node before it (\<open>prev\<close> for the first).
\<close>

primrec dll :: "(addr \<Rightarrow> 'a Node option) \<Rightarrow> addr option \<Rightarrow> addr option \<Rightarrow> addr list \<Rightarrow> bool" where
  "dll h prev p [] = (p = None)"
| "dll h prev p (a # as) =
     (p = Some a \<and>
      (case h a of
         None \<Rightarrow> False
       | Some nd \<Rightarrow> previous nd = prev \<and> dll h (Some a) (next' nd) as))"

text \<open>The tree \<open>this\<close> owns the nodes at \<open>as\<close>, in this order from \<open>head\<close>.\<close>

definition tree_nodes :: "'a state \<Rightarrow> tid \<Rightarrow> addr list \<Rightarrow> bool" where
  "tree_nodes s this as = (dll (heap s) None (head s this) as \<and> distinct as)"

text \<open>The values stored at a list of addresses.\<close>

definition values_at :: "'a state \<Rightarrow> addr list \<Rightarrow> 'a option list" where
  "values_at s as = map (\<lambda>a. map_option data (heap s a)) as"

text \<open>
  The height of the structure below a pointer when \<open>left\<close> and \<open>right\<close> are read as
  child links, explored to the depth \<open>k\<close>.
\<close>

fun height :: "nat \<Rightarrow> (addr \<Rightarrow> 'a Node option) \<Rightarrow> addr option \<Rightarrow> nat" where
  "height 0 h p = 0"
| "height (Suc k) h p =
     (case p of
        None \<Rightarrow> 0
      | Some a \<Rightarrow>
          (case h a of
             None \<Rightarrow> 0
           | Some nd \<Rightarrow> Suc (max (height k h (left nd)) (height k h (right nd)))))"

definition balance_factor :: "nat \<Rightarrow> (addr \<Rightarrow> 'a Node option) \<Rightarrow> addr \<Rightarrow> int option" where
  "balance_factor k h a =
     map_option (\<lambda>nd. int (height k h (left nd)) - int (height k h (right nd))) (h a)"

text \<open>
  A piece of a list: as \<open>dll\<close>, but the \<open>next\<close> link of the last node is \<open>q\<close>.
\<close>

primrec dlseg ::
  "(addr \<Rightarrow> 'a Node option) \<Rightarrow> addr option \<Rightarrow> addr option \<Rightarrow> addr list \<Rightarrow> addr option \<Rightarrow> bool" where
  "dlseg h prev p [] q = (p = q)"
| "dlseg h prev p (a # as) q =
     (p = Some a \<and>
      (case h a of
         None \<Rightarrow> False
       | Some nd \<Rightarrow> previous nd = prev \<and> dlseg h (Some a) (next' nd) as q))"

definition lastp :: "addr option \<Rightarrow> addr list \<Rightarrow> addr option" where
  "lastp prev xs = (if xs = [] then prev else Some (last xs))"

definition hdp :: "addr list \<Rightarrow> addr option" where
  "hdp xs = (case xs of [] \<Rightarrow> None | x # _ \<Rightarrow> Some x)"

text \<open>Every allocated address lies below the next one the allocator hands out.\<close>

definition alloc_ok :: "'a state \<Rightarrow> bool" where
  "alloc_ok s = (\<forall>a. heap s a \<noteq> None \<longrightarrow> a < free s)"

text \<open>
  An iterator of the tree \<open>this\<close> that has not been invalidated: it names the tree and
  is the end sentinel or references one of the tree's nodes.
\<close>

definition valid_iterator :: "'a state \<Rightarrow> tid \<Rightarrow> Iterator \<Rightarrow> bool" where
  "valid_iterator s this it =
     (listPtr it = Some this \<and>
      (case node it of
         None \<Rightarrow> True
       | Some n \<Rightarrow> (\<exists>as. tree_nodes s this as \<and> n \<in> set as)))"

text \<open>
  The states a tree's owner reaches by calling \<open>insert\<close> and \<open>remove\<close> on the tree
  \<open>this\<close> with valid iterators, whatever the calls return.
\<close>

inductive mutated :: "tid \<Rightarrow> 'a state \<Rightarrow> 'a state \<Rightarrow> bool" for this :: tid and s :: "'a state" where
  unchanged: "mutated this s s"
| inserted: "mutated this s s1 \<Longrightarrow> valid_iterator s1 this it \<Longrightarrow>
     insert' this d it s1 = Some (r, s2) \<Longrightarrow> mutated this s s2"
| removed: "mutated this s s1 \<Longrightarrow> valid_iterator s1 this it \<Longrightarrow>
     remove this it s1 = (r, s2) \<Longrightarrow> mutated this s s2"

subsection \<open>Removal of a node with two children as the specification words it\<close>

text \<open>\<open>Node::swapNodes\<close>, called on the node \<open>this\<close>; \<open>node1\<close> is its parameter \<open>node\<close>.\<close>

definition swapNodes :: "addr \<Rightarrow> addr \<Rightarrow> 'a state \<Rightarrow> (error + unit) \<times> 'a state" where
  "swapNodes this node1 s =
     (case deref node1 s of
        Inl e \<Rightarrow> (Inl e, s)
      | Inr nd \<Rightarrow>
          (let temp = data nd
           in case deref this s of
                Inl e \<Rightarrow> (Inl e, s)
              | Inr td \<Rightarrow>
                  (let s1 = s\<lparr>heap := (heap s)(node1 \<mapsto> nd\<lparr>data := data td\<rparr>)\<rparr>
                   in case deref this s1 of
                        Inl e \<Rightarrow> (Inl e, s1)
                      | Inr td1 \<Rightarrow>
                          (Inr (), s1\<lparr>heap := (heap s1)(this \<mapsto> td1\<lparr>data := temp\<rparr>)\<rparr>))))"

text \<open>The leftmost node below a node: follow \<open>left\<close> until it is null.\<close>

partial_function (option) leftmost :: "(addr \<Rightarrow> 'a Node option) \<Rightarrow> addr \<Rightarrow> (error + addr) option" where
  "leftmost h a =
     (case h a of
        None \<Rightarrow> Some (Inl InvalidPointer)
      | Some nd \<Rightarrow>
          (case left nd of
             None \<Rightarrow> Some (Inr a)
           | Some l \<Rightarrow> leftmost h l))"

declare leftmost.simps [code]

text \<open>
  Follows the specification's words (section 4.3) for a target with a right child:
  locate the in-order successor (the leftmost node of the right subtree), swap contents
  between the target and the successor with the content-swap operation, then remove the
  successor node by the splice, which is the body of \<open>remove\<close>.  A target without a
  right child is spliced out directly.
\<close>

definition remove_by_swap :: "tid \<Rightarrow> Iterator \<Rightarrow> 'a state \<Rightarrow> ((error + unit) \<times> 'a state) option" where
  "remove_by_swap this iterator s =
     (case node iterator of
        None \<Rightarrow> Some (remove this iterator s)
      | Some n \<Rightarrow>
          (case deref n s of
             Inl e \<Rightarrow> Some (Inl e, s)
           | Inr nd \<Rightarrow>
               (case right nd of
                  None \<Rightarrow> Some (remove this iterator s)
                | Some r \<Rightarrow>
                    (case leftmost (heap s) r of
                       None \<Rightarrow> None
                     | Some (Inl e) \<Rightarrow> Some (Inl e, s)
                     | Some (Inr successor) \<Rightarrow>
                         (case swapNodes n successor s of
                            (Inl e, s1) \<Rightarrow> Some (Inl e, s1)
                          | (Inr _, s1) \<Rightarrow>
                              Some (remove this (iterator\<lparr>node := Some successor\<rparr>) s1))))))"

text \<open>The tree 0 after \<open>insert(1, end())\<close>, \<open>insert(2, end())\<close>, \<open>insert(3, end())\<close>.\<close>

definition three_nodes :: "nat state" where
  "three_nodes =
     \<lparr>heap = (\<lambda>_. None)
        (0 \<mapsto> \<lparr>next' = Some 1, previous = None, data = 1\<rparr>,
         1 \<mapsto> \<lparr>next' = Some 2, previous = Some 0, data = 2\<rparr>,
         2 \<mapsto> \<lparr>next' = None, previous = Some 1, data = 3\<rparr>),
      head = (\<lambda>_. None)(0 := Some 0),
      free = 3\<rparr>"

text \<open>Tree 0 holds 1, 2, 3 and tree 1 holds 9.\<close>

definition two_trees :: "nat state" where
  "two_trees =
     \<lparr>heap = (\<lambda>_. None)
        (0 \<mapsto> \<lparr>next' = Some 1, previous = None, data = 1\<rparr>,
         1 \<mapsto> \<lparr>next' = Some 2, previous = Some 0, data = 2\<rparr>,
         2 \<mapsto> \<lparr>next' = None, previous = Some 1, data = 3\<rparr>,
         3 \<mapsto> \<lparr>next' = None, previous = None, data = 9\<rparr>),
      head = (\<lambda>_. None)(0 := Some 0, 1 := Some 3),
      free = 4\<rparr>"

section \<open>Properties\<close>

subsection \<open>List segments\<close>

lemma dll_dlseg: "dll h prev p as = dlseg h prev p as None"
  by (induction as arbitrary: prev p) (auto split: option.splits)

lemma lastp_simps [simp]: "lastp prev [] = prev" "lastp prev (xs @ [x]) = Some x"
  "lastp prev (x # xs) = lastp (Some x) xs"
  by (auto simp: lastp_def)

lemma hdp_simps [simp]: "hdp [] = None" "hdp (x # xs) = Some x"
  by (auto simp: hdp_def)

lemma dlseg_append:
  "dlseg h prev p (xs @ ys) q = (\<exists>r. dlseg h prev p xs r \<and> dlseg h (lastp prev xs) r ys q)"
  by (induction xs arbitrary: prev p) (auto split: option.splits)

lemma dlseg_cong: "(\<And>a. a \<in> set as \<Longrightarrow> h a = h' a) \<Longrightarrow> dlseg h prev p as q = dlseg h' prev p as q"
  by (induction as arbitrary: prev p) (auto split: option.splits)

lemma dlseg_upd_other [simp]: "a \<notin> set as \<Longrightarrow> dlseg (h(a := v)) prev p as q = dlseg h prev p as q"
  by (rule dlseg_cong) auto

lemma dlseg_allocated: "dlseg h prev p as q \<Longrightarrow> a \<in> set as \<Longrightarrow> h a \<noteq> None"
  by (induction as arbitrary: prev p) (auto split: option.splits)

lemma dlseg_start: "dlseg h prev p as q \<Longrightarrow> p = (if as = [] then q else hdp as)"
  by (cases as) auto

lemma dlseg_snoc:
  "dlseg h prev p (xs @ [l]) q =
     (\<exists>nd. dlseg h prev p xs (Some l) \<and> h l = Some nd \<and> previous nd = lastp prev xs \<and> next' nd = q)"
  by (auto simp: dlseg_append split: option.splits)

subsection \<open>What remove and insert do to a well-formed list\<close>

lemma remove_valid:
  assumes "tree_nodes s this (xs @ n # ys)" and "listPtr it = Some this" and "node it = Some n"
  shows "\<exists>s'. remove this it s = (Inr (), s') \<and> tree_nodes s' this (xs @ ys) \<and> heap s' n = None \<and>
           (\<forall>a. a \<noteq> n \<longrightarrow> map_option data (heap s' a) = map_option data (heap s a)) \<and>
           (\<forall>a. a \<notin> set (xs @ n # ys) \<longrightarrow> heap s' a = heap s a) \<and>
           (\<forall>t. t \<noteq> this \<longrightarrow> head s' t = head s t) \<and> free s' = free s"
proof -
  from assms(1) have d: "distinct (xs @ n # ys)" and seg: "dlseg (heap s) None (head s this) (xs @ n # ys) None"
    by (auto simp: tree_nodes_def dll_dlseg)
  from seg obtain nd where
    xs: "dlseg (heap s) None (head s this) xs (Some n)" and
    nd: "heap s n = Some nd" "previous nd = lastp None xs" and
    ys: "dlseg (heap s) (Some n) (next' nd) ys None"
    by (auto simp: dlseg_append split: option.splits)
  have nx: "next' nd = hdp ys" using dlseg_start[OF ys] by (cases ys) auto
  have hd: "head s this \<noteq> None" using dlseg_start[OF xs] by (cases xs) auto
  show ?thesis
  proof (cases xs rule: rev_cases)
    case Nil
    show ?thesis
    proof (cases ys)
      case Nil': Nil
      with Nil xs nd nx hd assms(2,3) show ?thesis
        by (auto simp: remove_def andthen_def unlink_previous_def unlink_next_def move_head_def
              delete_def deref_def tree_nodes_def)
    next
      case (Cons y ys')
      with Nil xs nd nx hd assms(2,3) ys d show ?thesis
        by (auto simp: remove_def andthen_def unlink_previous_def unlink_next_def move_head_def
              delete_def deref_def tree_nodes_def set_previous_def dll_dlseg split: option.splits)
    qed
  next
    case (snoc xs' l)
    show ?thesis
    proof (cases ys)
      case Nil
      with snoc xs nd nx hd assms(2,3) d show ?thesis
        by (auto simp: remove_def andthen_def unlink_previous_def unlink_next_def move_head_def
              delete_def deref_def tree_nodes_def set_next_def dll_dlseg dlseg_snoc dlseg_append
              split: option.splits)
    next
      case (Cons y ys')
      with snoc xs nd nx hd assms(2,3) ys d show ?thesis
        by (auto simp: remove_def andthen_def unlink_previous_def unlink_next_def move_head_def
              delete_def deref_def tree_nodes_def set_next_def set_previous_def dll_dlseg dlseg_snoc dlseg_append
              split: option.splits)
    qed
  qed
qed


lemma last_Node_dlseg:
  "dlseg h prev (Some a) as None \<Longrightarrow> last_Node h a = Some (Inr (last as))"
proof (induction as arbitrary: prev a)
  case Nil
  then show ?case by simp
next
  case (Cons b bs)
  then obtain nd where nd: "a = b" "h b = Some nd" "dlseg h (Some b) (next' nd) bs None"
    by (auto split: option.splits)
  show ?case
  proof (cases bs)
    case Nil
    with nd show ?thesis by (subst last_Node.simps) simp
  next
    case (Cons c cs)
    with nd have "next' nd = Some c" by simp
    with nd Cons Cons.IH[of "Some b" c] show ?thesis
      by (subst last_Node.simps) simp
  qed
qed

lemma tree_nodes_fresh: "tree_nodes s this as \<Longrightarrow> alloc_ok s \<Longrightarrow> free s \<notin> set as"
  unfolding tree_nodes_def alloc_ok_def dll_dlseg
  using dlseg_allocated by (metis less_irrefl)

lemma insert_end_valid:
  assumes "tree_nodes s this as" and "alloc_ok s"
  shows "\<exists>s'. insert' this d (end' this) s = Some (Inr (), s') \<and>
           tree_nodes s' this (as @ [free s]) \<and>
           map_option data (heap s' (free s)) = Some d \<and>
           (\<forall>a. a \<noteq> free s \<longrightarrow> map_option data (heap s' a) = map_option data (heap s a)) \<and>
           (\<forall>a. a \<notin> set as \<and> a \<noteq> free s \<longrightarrow> heap s' a = heap s a) \<and>
           (\<forall>t. t \<noteq> this \<longrightarrow> head s' t = head s t) \<and> free s' = Suc (free s) \<and> alloc_ok s'"
proof -
  from assms have fr: "free s \<notin> set as" by (rule tree_nodes_fresh)
  from assms(1) have d: "distinct as" and seg: "dlseg (heap s) None (head s this) as None"
    by (auto simp: tree_nodes_def dll_dlseg)
  show ?thesis
  proof (cases as rule: rev_cases)
    case Nil
    with seg assms(2) show ?thesis
      by (auto simp: insert'_def end'_def new_Node_def tree_nodes_def alloc_ok_def less_Suc_eq)
  next
    case (snoc xs l)
    with seg obtain h where h: "head s this = Some h" by (cases xs) auto
    with seg snoc have ln: "last_Node (heap s) h = Some (Inr l)"
      using last_Node_dlseg[of "heap s" None h as] by simp
    from seg snoc obtain nd where nd: "dlseg (heap s) None (head s this) xs (Some l)"
      "heap s l = Some nd" "previous nd = lastp None xs" "next' nd = None"
      by (auto simp: dlseg_snoc)
    with snoc h ln fr d assms(2) show ?thesis
      by (auto simp: insert'_def end'_def new_Node_def tree_nodes_def alloc_ok_def less_Suc_eq
            set_next_def dll_dlseg dlseg_snoc dlseg_append)
  qed
qed

lemma insert_before_valid:
  assumes "tree_nodes s this (xs @ n # ys)" and "alloc_ok s"
    and "listPtr it = Some this" and "node it = Some n"
  shows "\<exists>s'. insert' this d it s = Some (Inr (), s') \<and>
           tree_nodes s' this (xs @ free s # n # ys) \<and>
           map_option data (heap s' (free s)) = Some d \<and>
           (\<forall>a. a \<noteq> free s \<longrightarrow> map_option data (heap s' a) = map_option data (heap s a)) \<and>
           (\<forall>a. a \<notin> set (xs @ n # ys) \<and> a \<noteq> free s \<longrightarrow> heap s' a = heap s a) \<and>
           (\<forall>t. t \<noteq> this \<longrightarrow> head s' t = head s t) \<and> free s' = Suc (free s) \<and> alloc_ok s'"
proof -
  from assms have fr: "free s \<notin> set (xs @ n # ys)" by (intro tree_nodes_fresh)
  from assms(1) have d: "distinct (xs @ n # ys)"
    and seg: "dlseg (heap s) None (head s this) (xs @ n # ys) None"
    by (auto simp: tree_nodes_def dll_dlseg)
  from seg obtain nd where
    xs: "dlseg (heap s) None (head s this) xs (Some n)" and
    nd: "heap s n = Some nd" "previous nd = lastp None xs" and
    ys: "dlseg (heap s) (Some n) (next' nd) ys None"
    by (auto simp: dlseg_append split: option.splits)
  show ?thesis
  proof (cases xs rule: rev_cases)
    case Nil
    with xs nd ys fr d assms(2,3,4) show ?thesis
      by (auto simp: insert'_def insert_before_def deref_def new_Node_def tree_nodes_def
            alloc_ok_def less_Suc_eq set_previous_def andthen_def dll_dlseg)
  next
    case (snoc xs' l)
    with xs nd ys fr d assms(2,3,4) show ?thesis
      by (auto simp: insert'_def insert_before_def deref_def new_Node_def tree_nodes_def
            alloc_ok_def less_Suc_eq set_previous_def set_next_def andthen_def dll_dlseg
            dlseg_snoc dlseg_append Let_def split: option.splits)
  qed
qed

lemma values_at_cong:
  "(\<And>a. a \<in> set as \<Longrightarrow> map_option data (heap s' a) = map_option data (heap s a)) \<Longrightarrow>
     values_at s' as = values_at s as"
  by (simp add: values_at_def)

lemma three_nodes_built: "insert_all 0 [1, 2, 3::nat] init = Some (Inr (), three_nodes)"
  by (auto simp: insert'_def end'_def init_def new_Node_def set_next_def three_nodes_def
      last_Node.simps fun_eq_iff)

subsection \<open>The loops of copying and assignment\<close>

lemma tree_nodes_frame:
  "tree_nodes s t as \<Longrightarrow> (\<And>a. a \<in> set as \<Longrightarrow> heap s' a = heap s a) \<Longrightarrow> head s' t = head s t \<Longrightarrow>
     tree_nodes s' t as"
  unfolding tree_nodes_def dll_dlseg using dlseg_cong[of as "heap s'" "heap s"] by simp

lemma tree_nodes_allocated: "tree_nodes s t as \<Longrightarrow> a \<in> set as \<Longrightarrow> heap s a \<noteq> None"
  unfolding tree_nodes_def dll_dlseg by (blast dest: dlseg_allocated)

lemma tree_nodes_below_free: "tree_nodes s t as \<Longrightarrow> alloc_ok s \<Longrightarrow> a \<in> set as \<Longrightarrow> a < free s"
  using tree_nodes_allocated unfolding alloc_ok_def by blast

lemma dlseg_unique: "dlseg h prev p as None \<Longrightarrow> dlseg h prev p bs None \<Longrightarrow> as = bs"
proof (induction as arbitrary: prev p bs)
  case Nil
  then show ?case by (cases bs) auto
next
  case (Cons a as)
  then show ?case by (cases bs) (auto split: option.splits)
qed

lemma tree_nodes_unique: "tree_nodes s t as \<Longrightarrow> tree_nodes s t bs \<Longrightarrow> as = bs"
  unfolding tree_nodes_def dll_dlseg by (blast intro: dlseg_unique)

lemma end_iterator: "node it = None \<Longrightarrow> listPtr it = Some this \<Longrightarrow> it = end' this"
  by (cases it) (simp add: end'_def)

lemma remove_loop_spec:
  "tree_nodes s this as \<Longrightarrow>
     \<exists>s'. remove_loop this s = Some (Inr (), s') \<and> head s' this = None \<and>
       (\<forall>a. heap s' a = (if a \<in> set as then None else heap s a)) \<and>
       (\<forall>t. t \<noteq> this \<longrightarrow> head s' t = head s t) \<and> free s' = free s"
proof (induction as arbitrary: s)
  case Nil
  then have "head s this = None" by (simp add: tree_nodes_def)
  then show ?case by (subst remove_loop.simps) simp
next
  case (Cons a as)
  then have h: "head s this = Some a" and d: "a \<notin> set as" by (auto simp: tree_nodes_def)
  from remove_valid[of s this "[]" a as "begin' this s"] Cons.prems h
  obtain s1 where s1: "remove this (begin' this s) s = (Inr (), s1)" "tree_nodes s1 this as"
    "heap s1 a = None" "\<forall>b. b \<notin> set (a # as) \<longrightarrow> heap s1 b = heap s b"
    "\<forall>t. t \<noteq> this \<longrightarrow> head s1 t = head s t" "free s1 = free s"
    by (auto simp: begin'_def)
  from Cons.IH[OF s1(2)] obtain s' where s': "remove_loop this s1 = Some (Inr (), s')"
    "head s' this = None" "\<forall>b. heap s' b = (if b \<in> set as then None else heap s1 b)"
    "\<forall>t. t \<noteq> this \<longrightarrow> head s' t = head s1 t" "free s' = free s1"
    by blast
  have "remove_loop this s = Some (Inr (), s')"
    using h s1(1) s'(1) by (subst remove_loop.simps) simp
  moreover have "\<forall>b. heap s' b = (if b \<in> set (a # as) then None else heap s b)"
    using s'(3) s1(3,4) d by auto
  ultimately show ?case using s' s1 by auto
qed

lemma assign_loop_spec:
  "dlseg (heap s) prev p rest None \<Longrightarrow> tree_nodes s this bs \<Longrightarrow> set rest \<inter> set bs = {} \<Longrightarrow>
   alloc_ok s \<Longrightarrow>
     \<exists>s' new. assign_loop this p s = Some (Inr (), s') \<and> tree_nodes s' this (bs @ new) \<and>
       values_at s' new = values_at s rest \<and>
       (\<forall>a. a < free s \<and> a \<notin> set bs \<longrightarrow> heap s' a = heap s a) \<and>
       (\<forall>a. a < free s \<longrightarrow> map_option data (heap s' a) = map_option data (heap s a)) \<and>
       (\<forall>a\<in>set new. free s \<le> a) \<and>
       (\<forall>t. t \<noteq> this \<longrightarrow> head s' t = head s t) \<and> alloc_ok s' \<and> free s \<le> free s'"
proof (induction rest arbitrary: s prev p bs)
  case Nil
  then have "p = None" by simp
  then have "assign_loop this p s = Some (Inr (), s)" by (subst assign_loop.simps) simp
  with Nil show ?case by (intro exI[of _ s] exI[of _ "[]"]) (simp add: values_at_def)
next
  case (Cons a rest)
  from Cons.prems(1) obtain nd where nd: "p = Some a" "heap s a = Some nd"
    "dlseg (heap s) (Some a) (next' nd) rest None"
    by (auto split: option.splits)
  from insert_end_valid[OF Cons.prems(2,4), of "data nd"] obtain s1 where
    s1: "insert' this (data nd) (end' this) s = Some (Inr (), s1)"
      "tree_nodes s1 this (bs @ [free s])"
      "map_option data (heap s1 (free s)) = Some (data nd)"
      "\<forall>b. b \<noteq> free s \<longrightarrow> map_option data (heap s1 b) = map_option data (heap s b)"
      "\<forall>b. b \<notin> set bs \<and> b \<noteq> free s \<longrightarrow> heap s1 b = heap s b"
      "\<forall>t. t \<noteq> this \<longrightarrow> head s1 t = head s t" "free s1 = Suc (free s)" "alloc_ok s1"
    by blast
  have below: "\<And>b. b \<in> set (a # rest) \<Longrightarrow> b < free s"
    using dlseg_allocated[OF Cons.prems(1)] Cons.prems(4) unfolding alloc_ok_def by blast
  have same: "\<And>b. b \<in> set (a # rest) \<Longrightarrow> heap s1 b = heap s b"
    using s1(5) below Cons.prems(3) by (metis disjoint_iff less_irrefl)
  have a1: "heap s1 a = Some nd" using same[of a] nd(2) by simp
  have seg1: "dlseg (heap s1) (Some a) (next' nd) rest None"
    using nd(3) dlseg_cong[of rest "heap s1" "heap s"] same by simp
  have disj1: "set rest \<inter> set (bs @ [free s]) = {}"
    using Cons.prems(3) below by fastforce
  from Cons.IH[OF seg1 s1(2) disj1 s1(8)] obtain s' new where
    s': "assign_loop this (next' nd) s1 = Some (Inr (), s')"
      "tree_nodes s' this ((bs @ [free s]) @ new)"
      "values_at s' new = values_at s1 rest"
      "\<forall>b. b < free s1 \<and> b \<notin> set (bs @ [free s]) \<longrightarrow> heap s' b = heap s1 b"
      "\<forall>b. b < free s1 \<longrightarrow> map_option data (heap s' b) = map_option data (heap s1 b)"
      "\<forall>b\<in>set new. free s1 \<le> b"
      "\<forall>t. t \<noteq> this \<longrightarrow> head s' t = head s1 t" "alloc_ok s'" "free s1 \<le> free s'"
    by blast
  have run: "assign_loop this p s = Some (Inr (), s')"
    using nd(1,2) s1(1) a1 s'(1) by (subst assign_loop.simps) (simp add: deref_def)
  have v1: "values_at s1 rest = values_at s rest"
    using same by (simp add: values_at_def)
  have v2: "map_option data (heap s' (free s)) = map_option data (heap s a)"
    using s'(5) s1(3,7) nd(2) by simp
  have vals: "values_at s' (free s # new) = values_at s (a # rest)"
    using s'(3) v1 v2 by (simp add: values_at_def)
  have fr1: "\<forall>b. b < free s \<and> b \<notin> set bs \<longrightarrow> heap s' b = heap s b"
    using s'(4) s1(5,7) by auto
  have fr2: "\<forall>b. b < free s \<longrightarrow> map_option data (heap s' b) = map_option data (heap s b)"
    using s'(5) s1(4,7) by auto
  have fr3: "\<forall>b\<in>set (free s # new). free s \<le> b"
    using s'(6) s1(7) by auto
  show ?case
    using run s'(2) vals fr1 fr2 fr3 s'(7,8,9) s1(6,7)
    by (intro exI[of _ s'] exI[of _ "free s # new"]) auto
qed

lemma copy_loop_spec:
  "dlseg (heap s) prev p rest None \<Longrightarrow> tree_nodes s this bs \<Longrightarrow> set rest \<inter> set bs = {} \<Longrightarrow>
   alloc_ok s \<Longrightarrow>
     \<exists>s' new. copy_loop this p (end' this) s = Some (Inr (), s') \<and> tree_nodes s' this (bs @ new) \<and>
       values_at s' new = values_at s rest \<and>
       (\<forall>a. a < free s \<and> a \<notin> set bs \<longrightarrow> heap s' a = heap s a) \<and>
       (\<forall>a. a < free s \<longrightarrow> map_option data (heap s' a) = map_option data (heap s a)) \<and>
       (\<forall>a\<in>set new. free s \<le> a) \<and>
       (\<forall>t. t \<noteq> this \<longrightarrow> head s' t = head s t) \<and> alloc_ok s' \<and> free s \<le> free s'"
proof (induction rest arbitrary: s prev p bs)
  case Nil
  then have "p = None" by simp
  then have "copy_loop this p (end' this) s = Some (Inr (), s)" by (subst copy_loop.simps) simp
  with Nil show ?case by (intro exI[of _ s] exI[of _ "[]"]) (simp add: values_at_def)
next
  case (Cons a rest)
  from Cons.prems(1) obtain nd where nd: "p = Some a" "heap s a = Some nd"
    "dlseg (heap s) (Some a) (next' nd) rest None"
    by (auto split: option.splits)
  from insert_end_valid[OF Cons.prems(2,4), of "data nd"] obtain s1 where
    s1: "insert' this (data nd) (end' this) s = Some (Inr (), s1)"
      "tree_nodes s1 this (bs @ [free s])"
      "map_option data (heap s1 (free s)) = Some (data nd)"
      "\<forall>b. b \<noteq> free s \<longrightarrow> map_option data (heap s1 b) = map_option data (heap s b)"
      "\<forall>b. b \<notin> set bs \<and> b \<noteq> free s \<longrightarrow> heap s1 b = heap s b"
      "\<forall>t. t \<noteq> this \<longrightarrow> head s1 t = head s t" "free s1 = Suc (free s)" "alloc_ok s1"
    by blast
  have below: "\<And>b. b \<in> set (a # rest) \<Longrightarrow> b < free s"
    using dlseg_allocated[OF Cons.prems(1)] Cons.prems(4) unfolding alloc_ok_def by blast
  have same: "\<And>b. b \<in> set (a # rest) \<Longrightarrow> heap s1 b = heap s b"
    using s1(5) below Cons.prems(3) by (metis disjoint_iff less_irrefl)
  have a1: "heap s1 a = Some nd" using same[of a] nd(2) by simp
  have seg1: "dlseg (heap s1) (Some a) (next' nd) rest None"
    using nd(3) dlseg_cong[of rest "heap s1" "heap s"] same by simp
  have disj1: "set rest \<inter> set (bs @ [free s]) = {}"
    using Cons.prems(3) below by fastforce
  from Cons.IH[OF seg1 s1(2) disj1 s1(8)] obtain s' new where
    s': "copy_loop this (next' nd) (end' this) s1 = Some (Inr (), s')"
      "tree_nodes s' this ((bs @ [free s]) @ new)"
      "values_at s' new = values_at s1 rest"
      "\<forall>b. b < free s1 \<and> b \<notin> set (bs @ [free s]) \<longrightarrow> heap s' b = heap s1 b"
      "\<forall>b. b < free s1 \<longrightarrow> map_option data (heap s' b) = map_option data (heap s1 b)"
      "\<forall>b\<in>set new. free s1 \<le> b"
      "\<forall>t. t \<noteq> this \<longrightarrow> head s' t = head s1 t" "alloc_ok s'" "free s1 \<le> free s'"
    by blast
  have run: "copy_loop this p (end' this) s = Some (Inr (), s')"
    using nd(1,2) s1(1) a1 s'(1) by (subst copy_loop.simps) (simp add: deref_def)
  have v1: "values_at s1 rest = values_at s rest"
    using same by (simp add: values_at_def)
  have v2: "map_option data (heap s' (free s)) = map_option data (heap s a)"
    using s'(5) s1(3,7) nd(2) by simp
  have vals: "values_at s' (free s # new) = values_at s (a # rest)"
    using s'(3) v1 v2 by (simp add: values_at_def)
  have fr1: "\<forall>b. b < free s \<and> b \<notin> set bs \<longrightarrow> heap s' b = heap s b"
    using s'(4) s1(5,7) by auto
  have fr2: "\<forall>b. b < free s \<longrightarrow> map_option data (heap s' b) = map_option data (heap s b)"
    using s'(5) s1(4,7) by auto
  have fr3: "\<forall>b\<in>set (free s # new). free s \<le> b"
    using s'(6) s1(7) by auto
  show ?case
    using run s'(2) vals fr1 fr2 fr3 s'(7,8,9) s1(6,7)
    by (intro exI[of _ s'] exI[of _ "free s # new"]) auto
qed


lemma alloc_ok_shrink:
  "alloc_ok s \<Longrightarrow> (\<And>a. heap s' a \<noteq> None \<Longrightarrow> heap s a \<noteq> None) \<Longrightarrow> free s \<le> free s' \<Longrightarrow> alloc_ok s'"
  unfolding alloc_ok_def by (meson less_le_trans)

lemma mutated_frame:
  assumes "mutated A s1 s2" and "A \<noteq> B" and "tree_nodes s1 A as" and "tree_nodes s1 B bs"
    and "set as \<inter> set bs = {}" and "alloc_ok s1"
  shows "tree_nodes s2 B bs \<and> values_at s2 bs = values_at s1 bs \<and>
         (\<exists>as'. tree_nodes s2 A as' \<and> set as' \<inter> set bs = {}) \<and> alloc_ok s2"
  using assms
proof (induction rule: mutated.induct)
  case unchanged
  then show ?case by blast
next
  case (inserted s it d r s')
  from inserted.IH[OF inserted.prems] obtain as' where
    inv: "tree_nodes s B bs" "values_at s bs = values_at s1 bs" "tree_nodes s A as'"
      "set as' \<inter> set bs = {}" "alloc_ok s"
    by blast
  have bsb: "\<And>b. b \<in> set bs \<Longrightarrow> b < free s"
    using tree_nodes_below_free[OF inv(1,5)] .
  from inserted.hyps(2) have lp: "listPtr it = Some A" by (simp add: valid_iterator_def)
  have "\<exists>as''. tree_nodes s' A as'' \<and> set as'' \<subseteq> set as' \<union> {free s} \<and>
          (\<forall>a. a \<noteq> free s \<longrightarrow> map_option data (heap s' a) = map_option data (heap s a)) \<and>
          (\<forall>a. a \<notin> set as' \<and> a \<noteq> free s \<longrightarrow> heap s' a = heap s a) \<and>
          (\<forall>t. t \<noteq> A \<longrightarrow> head s' t = head s t) \<and> alloc_ok s'"
  proof (cases "node it")
    case None
    from None lp have "it = end' A" by (rule end_iterator)
    with insert_end_valid[OF inv(3,5), of d] inserted.hyps(3) show ?thesis
      by (intro exI[of _ "as' @ [free s]"]) auto
  next
    case (Some n)
    with inserted.hyps(2) obtain as0 where "tree_nodes s A as0" "n \<in> set as0"
      by (auto simp: valid_iterator_def)
    with inv(3) have "n \<in> set as'" using tree_nodes_unique by blast
    then obtain xs ys where sp: "as' = xs @ n # ys" by (auto simp: in_set_conv_decomp)
    from insert_before_valid[OF inv(3)[unfolded sp] inv(5) lp Some, of d] inserted.hyps(3) sp
    show ?thesis
      by (intro exI[of _ "xs @ free s # n # ys"]) auto
  qed
  then obtain as'' where st: "tree_nodes s' A as''" "set as'' \<subseteq> set as' \<union> {free s}"
      "\<forall>a. a \<noteq> free s \<longrightarrow> map_option data (heap s' a) = map_option data (heap s a)"
      "\<forall>a. a \<notin> set as' \<and> a \<noteq> free s \<longrightarrow> heap s' a = heap s a"
      "\<forall>t. t \<noteq> A \<longrightarrow> head s' t = head s t" "alloc_ok s'"
    by blast
  have same: "\<And>b. b \<in> set bs \<Longrightarrow> heap s' b = heap s b"
    using st(4) inv(4) bsb by (metis disjoint_iff less_irrefl)
  have 1: "tree_nodes s' B bs"
    using inv(1) same st(5) inserted.prems(1) by (intro tree_nodes_frame[of s B bs s']) auto
  have 2: "values_at s' bs = values_at s1 bs"
    using same inv(2) by (simp add: values_at_def)
  have 3: "set as'' \<inter> set bs = {}"
    using st(2) inv(4) bsb by fastforce
  from 1 2 3 st(1,6) show ?case by blast
next
  case (removed s it r s')
  from removed.IH[OF removed.prems] obtain as' where
    inv: "tree_nodes s B bs" "values_at s bs = values_at s1 bs" "tree_nodes s A as'"
      "set as' \<inter> set bs = {}" "alloc_ok s"
    by blast
  from removed.hyps(2) have lp: "listPtr it = Some A" by (simp add: valid_iterator_def)
  show ?case
  proof (cases "node it")
    case None
    with removed.hyps(3) have "s' = s" by (simp add: remove_def)
    with inv show ?thesis by blast
  next
    case (Some n)
    with removed.hyps(2) obtain as0 where "tree_nodes s A as0" "n \<in> set as0"
      by (auto simp: valid_iterator_def)
    with inv(3) have "n \<in> set as'" using tree_nodes_unique by blast
    then obtain xs ys where sp: "as' = xs @ n # ys" by (auto simp: in_set_conv_decomp)
    from remove_valid[OF inv(3)[unfolded sp] lp Some] removed.hyps(3) have
      st: "tree_nodes s' A (xs @ ys)" "heap s' n = None"
        "\<forall>a. a \<noteq> n \<longrightarrow> map_option data (heap s' a) = map_option data (heap s a)"
        "\<forall>a. a \<notin> set (xs @ n # ys) \<longrightarrow> heap s' a = heap s a"
        "\<forall>t. t \<noteq> A \<longrightarrow> head s' t = head s t" "free s' = free s"
      by auto
    have same: "\<And>b. b \<in> set bs \<Longrightarrow> heap s' b = heap s b"
      using st(4) inv(4) sp by blast
    have 1: "tree_nodes s' B bs"
      using inv(1) same st(5) removed.prems(1) by (intro tree_nodes_frame[of s B bs s']) auto
    have 2: "values_at s' bs = values_at s1 bs"
      using same inv(2) by (simp add: values_at_def)
    have 3: "set (xs @ ys) \<inter> set bs = {}"
      using inv(4) sp by auto
    have 4: "alloc_ok s'"
    proof (rule alloc_ok_shrink[OF inv(5)])
      fix a assume "heap s' a \<noteq> None"
      with st(2,3) show "heap s a \<noteq> None" by (metis map_option_is_None)
    qed (simp add: st(6))
    from 1 2 3 4 st(1) show ?thesis by blast
  qed
qed

lemma copied_independent:
  assumes "A \<noteq> B" and "tree_nodes s0 A as" and "tree_nodes s0 B bs0" and "set as \<inter> set bs0 = {}"
    and "alloc_ok s0" and "head s0 A = head s A" and "values_at s0 as = values_at s as"
    and "tree_nodes s1 B (bs0 @ new) \<and>
       values_at s1 new = values_at s0 as \<and>
       (\<forall>a. a < free s0 \<and> a \<notin> set bs0 \<longrightarrow> heap s1 a = heap s0 a) \<and>
       (\<forall>a. a < free s0 \<longrightarrow> map_option data (heap s1 a) = map_option data (heap s0 a)) \<and>
       (\<forall>a\<in>set new. free s0 \<le> a) \<and>
       (\<forall>t. t \<noteq> B \<longrightarrow> head s1 t = head s0 t) \<and> alloc_ok s1 \<and> free s0 \<le> free s1"
    and "bs0 = []"
  shows "\<exists>bs'. tree_nodes s1 A as \<and> values_at s1 as = values_at s as \<and>
           tree_nodes s1 B bs' \<and> set bs' \<inter> set as = {} \<and> values_at s1 bs' = values_at s as \<and>
           (\<forall>s2. mutated A s1 s2 \<longrightarrow> tree_nodes s2 B bs' \<and> values_at s2 bs' = values_at s1 bs')"
proof -
  have below: "\<And>a. a \<in> set as \<Longrightarrow> a < free s0"
    using tree_nodes_below_free[OF assms(2,5)] .
  have same: "\<And>a. a \<in> set as \<Longrightarrow> heap s1 a = heap s0 a"
    using assms(8,9) below by auto
  have 1: "tree_nodes s1 A as"
    using assms(1,2,8) same by (intro tree_nodes_frame[of s0 A as s1]) auto
  have 2: "values_at s1 as = values_at s as"
    using same assms(7) by (simp add: values_at_def)
  have 3: "tree_nodes s1 B new" using assms(8,9) by simp
  have 4: "set new \<inter> set as = {}" using assms(8) below by fastforce
  then have d4: "set as \<inter> set new = {}" by blast
  have 5: "values_at s1 new = values_at s as" using assms(7,8) by simp
  have 6: "\<forall>s2. mutated A s1 s2 \<longrightarrow> tree_nodes s2 B new \<and> values_at s2 new = values_at s1 new"
    using mutated_frame[OF _ assms(1) 1 3 d4] assms(8) by blast
  from 1 2 3 4 5 6 show ?thesis by blast
qed

text \<open>
  Every state reached from the state without nodes by calls of \<open>insert\<close> and \<open>remove\<close>
  with valid iterators holds a well-formed list for the tree.
\<close>

lemma reachable_well_formed:
  assumes "mutated A init s"
  shows "(\<exists>as. tree_nodes s A as) \<and> alloc_ok s"
proof -
  have "A \<noteq> Suc A" by simp
  moreover have "tree_nodes init A []" "tree_nodes init (Suc A) []" "alloc_ok init"
    by (simp_all add: tree_nodes_def init_def alloc_ok_def)
  ultimately show ?thesis
    using mutated_frame[OF assms, of "Suc A" "[]" "[]"] by auto
qed

text \<open>
  What copying and assignment do to well-formed trees.  Assigning a tree to itself
  returns at once with the state untouched.  For two different trees the copy
  constructor returns, and \<open>operator=\<close> runs both of its loops to their end and then
  reaches the end of the function without a \<open>return\<close>.  Either leaves the source as it was
  and the destination owning new nodes, none shared with the source, that hold the values
  of the source in the same order; whatever \<open>insert\<close> and \<open>remove\<close> calls (with valid
  iterators) are made on the source in a state like that, the destination keeps the same
  nodes with the same values.
\<close>

lemma copy_and_assignment_effects:
  assumes "A \<noteq> B" and "tree_nodes s A as" and "alloc_ok s"
  shows "operator_assign A A s = Some (Inr (), s) \<and>
    (\<forall>bs. tree_nodes s B bs \<and> set as \<inter> set bs = {} \<longrightarrow>
      (\<exists>s1 bs'. operator_assign B A s = Some (Inl MissingReturn, s1) \<and>
         tree_nodes s1 A as \<and> values_at s1 as = values_at s as \<and>
         tree_nodes s1 B bs' \<and> set bs' \<inter> set as = {} \<and> values_at s1 bs' = values_at s as \<and>
         (\<forall>s2. mutated A s1 s2 \<longrightarrow> tree_nodes s2 B bs' \<and> values_at s2 bs' = values_at s1 bs'))) \<and>
    (\<exists>s1 bs'. copy_constructor B A s = Some (Inr (), s1) \<and>
       tree_nodes s1 A as \<and> values_at s1 as = values_at s as \<and>
       tree_nodes s1 B bs' \<and> set bs' \<inter> set as = {} \<and> values_at s1 bs' = values_at s as \<and>
       (\<forall>s2. mutated A s1 s2 \<longrightarrow> tree_nodes s2 B bs' \<and> values_at s2 bs' = values_at s1 bs'))"
proof (intro conjI allI impI)
  show "operator_assign A A s = Some (Inr (), s)" by (simp add: operator_assign_def)
next
  fix bs assume "tree_nodes s B bs \<and> set as \<inter> set bs = {}"
  then have B: "tree_nodes s B bs" and disj: "set as \<inter> set bs = {}" by auto
  from remove_loop_spec[OF B] obtain s0 where
    s0: "remove_loop B s = Some (Inr (), s0)" "head s0 B = None"
      "\<forall>a. heap s0 a = (if a \<in> set bs then None else heap s a)"
      "\<forall>t. t \<noteq> B \<longrightarrow> head s0 t = head s t" "free s0 = free s"
    by blast
  have same: "\<And>a. a \<in> set as \<Longrightarrow> heap s0 a = heap s a" using s0(3) disj by auto
  have hA: "head s0 A = head s A" using s0(4) assms(1) by simp
  have A0: "tree_nodes s0 A as"
    using assms(2) same hA by (intro tree_nodes_frame[of s A as s0]) auto
  have B0: "tree_nodes s0 B []" using s0(2) by (simp add: tree_nodes_def)
  have ok0: "alloc_ok s0"
    using s0(3,5) by (intro alloc_ok_shrink[OF assms(3)]) (auto split: if_splits)
  have v0: "values_at s0 as = values_at s as" using same by (simp add: values_at_def)
  have seg: "dlseg (heap s0) None (head s0 A) as None"
    using A0 by (simp add: tree_nodes_def dll_dlseg)
  from assign_loop_spec[OF seg B0 _ ok0] obtain s1 new where
    al: "assign_loop B (head s0 A) s0 = Some (Inr (), s1)" and
    s1: "tree_nodes s1 B ([] @ new) \<and>
       values_at s1 new = values_at s0 as \<and>
       (\<forall>a. a < free s0 \<and> a \<notin> set [] \<longrightarrow> heap s1 a = heap s0 a) \<and>
       (\<forall>a. a < free s0 \<longrightarrow> map_option data (heap s1 a) = map_option data (heap s0 a)) \<and>
       (\<forall>a\<in>set new. free s0 \<le> a) \<and>
       (\<forall>t. t \<noteq> B \<longrightarrow> head s1 t = head s0 t) \<and> alloc_ok s1 \<and> free s0 \<le> free s1"
    by auto
  have run: "operator_assign B A s = Some (Inl MissingReturn, s1)"
    using assms(1) s0(1) al by (auto simp: operator_assign_def)
  from copied_independent[OF assms(1) A0 B0 _ ok0 hA v0 s1] obtain bs' where
    "tree_nodes s1 A as \<and> values_at s1 as = values_at s as \<and>
     tree_nodes s1 B bs' \<and> set bs' \<inter> set as = {} \<and> values_at s1 bs' = values_at s as \<and>
     (\<forall>s2. mutated A s1 s2 \<longrightarrow> tree_nodes s2 B bs' \<and> values_at s2 bs' = values_at s1 bs')"
    by auto
  with run show "\<exists>s1 bs'. operator_assign B A s = Some (Inl MissingReturn, s1) \<and>
         tree_nodes s1 A as \<and> values_at s1 as = values_at s as \<and>
         tree_nodes s1 B bs' \<and> set bs' \<inter> set as = {} \<and> values_at s1 bs' = values_at s as \<and>
         (\<forall>s2. mutated A s1 s2 \<longrightarrow> tree_nodes s2 B bs' \<and> values_at s2 bs' = values_at s1 bs')"
    by blast
next
  define s0 where "s0 = s\<lparr>head := (head s)(B := None)\<rparr>"
  have hA: "head s0 A = head s A" using assms(1) by (simp add: s0_def)
  have A0: "tree_nodes s0 A as"
    using assms(2) hA by (intro tree_nodes_frame[of s A as s0]) (auto simp: s0_def)
  have B0: "tree_nodes s0 B []" by (simp add: tree_nodes_def s0_def)
  have ok0: "alloc_ok s0" using assms(3) by (simp add: alloc_ok_def s0_def)
  have v0: "values_at s0 as = values_at s as" by (simp add: values_at_def s0_def)
  have seg: "dlseg (heap s0) None (head s0 A) as None"
    using A0 by (simp add: tree_nodes_def dll_dlseg)
  from copy_loop_spec[OF seg B0 _ ok0] obtain s1 new where
    cl: "copy_loop B (head s0 A) (end' B) s0 = Some (Inr (), s1)" and
    s1: "tree_nodes s1 B ([] @ new) \<and>
       values_at s1 new = values_at s0 as \<and>
       (\<forall>a. a < free s0 \<and> a \<notin> set [] \<longrightarrow> heap s1 a = heap s0 a) \<and>
       (\<forall>a. a < free s0 \<longrightarrow> map_option data (heap s1 a) = map_option data (heap s0 a)) \<and>
       (\<forall>a\<in>set new. free s0 \<le> a) \<and>
       (\<forall>t. t \<noteq> B \<longrightarrow> head s1 t = head s0 t) \<and> alloc_ok s1 \<and> free s0 \<le> free s1"
    by auto
  have run: "copy_constructor B A s = Some (Inr (), s1)"
    using cl by (simp add: copy_constructor_def s0_def Let_def)
  from copied_independent[OF assms(1) A0 B0 _ ok0 hA v0 s1] obtain bs' where
    "tree_nodes s1 A as \<and> values_at s1 as = values_at s as \<and>
     tree_nodes s1 B bs' \<and> set bs' \<inter> set as = {} \<and> values_at s1 bs' = values_at s as \<and>
     (\<forall>s2. mutated A s1 s2 \<longrightarrow> tree_nodes s2 B bs' \<and> values_at s2 bs' = values_at s1 bs')"
    by auto
  with run show "\<exists>s1 bs'. copy_constructor B A s = Some (Inr (), s1) \<and>
       tree_nodes s1 A as \<and> values_at s1 as = values_at s as \<and>
       tree_nodes s1 B bs' \<and> set bs' \<inter> set as = {} \<and> values_at s1 bs' = values_at s as \<and>
       (\<forall>s2. mutated A s1 s2 \<longrightarrow> tree_nodes s2 B bs' \<and> values_at s2 bs' = values_at s1 bs')"
    by blast
qed

subsection \<open>The claims\<close>

text \<open>
  C1.  Balance.  Three calls \<open>insert(d, end())\<close> on the empty tree leave the chain
  \<open>0, 1, 2\<close>: the node at \<open>head\<close> has no \<open>right\<close> link, while below its \<open>left\<close> link
  two nodes follow one another, so the heights of its two sides differ by two.
  No function of the header computes a height or rotates.
\<close>

theorem insert_chain_unbalanced:
  "(case insert_all 0 [1, 2, 3::nat] init of
      Some (Inr _, s) \<Rightarrow>
        tree_nodes s 0 [0, 1, 2] \<and>
        map_option right (heap s 0) = Some None \<and>
        map_option left (heap s 0) = Some (Some 1) \<and>
        map_option left (heap s 1) = Some (Some 2) \<and>
        balance_factor 2 (heap s) 0 = Some 2
    | _ \<Rightarrow> False)"
  by code_simp

text \<open>
  C2.  Order.  Inserting 1, 3, 2 at \<open>end()\<close> leaves the nodes chained in the order of
  the calls: the values read 1, 3, 2 along \<open>next\<close> from \<open>head\<close> (2, 3, 1 backwards),
  which is not non-decreasing in either direction.
\<close>

theorem insert_all_keeps_call_order:
  "(case insert_all 0 [1, 3, 2::nat] init of
      Some (Inr _, s) \<Rightarrow>
        tree_nodes s 0 [0, 1, 2] \<and> values_at s [0, 1, 2] = [Some 1, Some 3, Some 2] \<and>
        \<not> sorted [1, 3, 2::nat] \<and> \<not> sorted (rev [1, 3, 2::nat])
    | _ \<Rightarrow> False)"
  by code_simp

text \<open>
  C3.  Where insert puts the new node.  On the tree holding 1, 3 the value 2 goes behind
  3 when the iterator is \<open>end()\<close> and in front of 1 when the iterator is \<open>begin()\<close>:
  the position comes from the iterator alone, no value is compared.
\<close>

theorem insert_position_from_iterator:
  "(case insert_all 0 [1, 3::nat] init of
      Some (Inr _, s) \<Rightarrow>
        (case insert' 0 2 (end' 0) s of
           Some (Inr _, s1) \<Rightarrow>
             tree_nodes s1 0 [0, 1, 2] \<and> values_at s1 [0, 1, 2] = [Some 1, Some 3, Some 2]
         | _ \<Rightarrow> False) \<and>
        (case insert' 0 2 (begin' 0 s) s of
           Some (Inr _, s1) \<Rightarrow>
             tree_nodes s1 0 [2, 0, 1] \<and> values_at s1 [2, 0, 1] = [Some 2, Some 1, Some 3]
         | _ \<Rightarrow> False)
    | _ \<Rightarrow> False)"
  by code_simp

text \<open>
  C4.  Removal of a node with two children.  The claim has \<open>remove\<close> swap the contents
  of the target and its in-order successor with \<open>swapNodes\<close> and splice out the
  successor.  \<open>remove\<close> never calls \<open>swapNodes\<close> and locates no successor.  On the tree
  holding 1, 2, 3 the node at address 1 has both links, but they are the links of a list:
  its \<open>right\<close> is the node before it, whose \<open>left\<close> leads back to it.  \<open>remove\<close> frees the
  node at address 1 itself and leaves the node at address 2 holding 3, while the procedure
  of the claim frees the node at address 2 and leaves 3 in the node at address 1.
\<close>

theorem remove_is_not_remove_by_swap:
  "map_option right (heap three_nodes 1) = Some (Some 0) \<and>
   map_option left (heap three_nodes 0) = Some (Some 1) \<and>
   map_option left (heap three_nodes 1) = Some (Some 2) \<and>
   fst (remove 0 \<lparr>node = Some 1, listPtr = Some 0\<rparr> three_nodes) = Inr () \<and>
   values_at (snd (remove 0 \<lparr>node = Some 1, listPtr = Some 0\<rparr> three_nodes)) [0, 1, 2] =
     [Some 1, None, Some 3] \<and>
   map_option (\<lambda>r. values_at (snd r) [0, 1, 2])
       (remove_by_swap 0 \<lparr>node = Some 1, listPtr = Some 0\<rparr> three_nodes) =
     Some [Some 1, Some 3, None] \<and>
   remove_by_swap 0 \<lparr>node = Some 1, listPtr = Some 0\<rparr> three_nodes \<noteq>
     Some (remove 0 \<lparr>node = Some 1, listPtr = Some 0\<rparr> three_nodes)"
proof -
  have l: "map_option right (heap three_nodes 1) = Some (Some 0) \<and>
     map_option left (heap three_nodes 0) = Some (Some 1) \<and>
     map_option left (heap three_nodes 1) = Some (Some 2)"
    by (simp add: three_nodes_def left_def right_def)
  have r: "fst (remove 0 \<lparr>node = Some 1, listPtr = Some 0\<rparr> three_nodes) = Inr ()"
    by code_simp
  have a: "values_at (snd (remove 0 \<lparr>node = Some 1, listPtr = Some 0\<rparr> three_nodes)) [0, 1, 2] =
     [Some 1, None, Some 3]"
    by code_simp
  have b: "map_option (\<lambda>r. values_at (snd r) [0, 1, 2])
       (remove_by_swap 0 \<lparr>node = Some 1, listPtr = Some 0\<rparr> three_nodes) =
     Some [Some 1, Some 3, None]"
    by code_simp
  from a b have "remove_by_swap 0 \<lparr>node = Some 1, listPtr = Some 0\<rparr> three_nodes \<noteq>
     Some (remove 0 \<lparr>node = Some 1, listPtr = Some 0\<rparr> three_nodes)"
    by auto
  with l r a b show ?thesis by blast
qed

theorem remove_is_not_remove_by_swap_witness:
  "values_at (snd (remove 0 \<lparr>node = Some 1, listPtr = Some 0\<rparr> three_nodes)) [0, 1, 2] =
     [Some 1, None, Some 3] \<and>
   map_option (\<lambda>r. values_at (snd r) [0, 1, 2])
       (remove_by_swap 0 \<lparr>node = Some 1, listPtr = Some 0\<rparr> three_nodes) =
     Some [Some 1, Some 3, None]"
  using remove_is_not_remove_by_swap by blast

text \<open>
  C5.  \<open>remove\<close> throws \<open>ElementNotFound\<close> exactly when the tree is empty, the iterator
  belongs to another tree or the iterator is the end sentinel, and then the state is the
  one before the call.
\<close>

theorem remove_ElementNotFound_iff:
  "(fst (remove this iterator s) = Inl ElementNotFound) =
     (head s this = None \<or> listPtr iterator \<noteq> Some this \<or> node iterator = None)
   \<and> (fst (remove this iterator s) = Inl ElementNotFound \<longrightarrow> snd (remove this iterator s) = s)"
  by (auto simp: remove_def andthen_def unlink_previous_def unlink_next_def move_head_def
        delete_def deref_def set_next_def set_previous_def
      split: option.splits sum.splits prod.splits if_splits)

theorem remove_ElementNotFound_iff_witness:
  "fst (remove 0 (end' 0) (init :: nat state)) = Inl ElementNotFound \<and>
   snd (remove 0 (end' 0) (init :: nat state)) = init \<and>
   fst (remove 0 \<lparr>node = Some 0, listPtr = Some 1\<rparr>
     \<lparr>heap = (\<lambda>_. None)(0 \<mapsto> \<lparr>next' = None, previous = None, data = 5::nat\<rparr>),
      head = (\<lambda>_. None)(0 := Some 0), free = 1\<rparr>) = Inl ElementNotFound \<and>
   fst (remove 0 \<lparr>node = Some 0, listPtr = Some 0\<rparr>
     \<lparr>heap = (\<lambda>_. None)(0 \<mapsto> \<lparr>next' = None, previous = None, data = 5::nat\<rparr>),
      head = (\<lambda>_. None)(0 := Some 0), free = 1\<rparr>) = Inr ()"
  using remove_ElementNotFound_iff [of 0 "end' 0" "init :: nat state"]
    remove_ElementNotFound_iff [of 0 "\<lparr>node = Some 0, listPtr = Some 1\<rparr>"
      "\<lparr>heap = (\<lambda>_. None)(0 \<mapsto> \<lparr>next' = None, previous = None, data = 5::nat\<rparr>),
        head = (\<lambda>_. None)(0 := Some 0), free = 1\<rparr>"]
  by (simp_all add: end'_def init_def remove_def andthen_def unlink_previous_def unlink_next_def
        move_head_def delete_def deref_def)


text \<open>
  C7.  Stepping backward.  On the tree holding 1, 2, \<open>operator--\<close> on \<open>end()\<close> throws
  \<open>IllegealOperationException\<close>, and on \<open>begin()\<close> it throws nothing and moves the
  iterator along \<open>next\<close> to the node holding 2.
\<close>

theorem operator_dec_boundaries:
  "(case insert_all 0 [1, 2::nat] init of
      Some (Inr _, s) \<Rightarrow>
        tree_nodes s 0 [0, 1] \<and> values_at s [0, 1] = [Some 1, Some 2] \<and>
        begin' 0 s = \<lparr>node = Some 0, listPtr = Some 0\<rparr> \<and>
        fst (operator_dec (end' 0) s) = Inl IllegealOperationException \<and>
        operator_dec (begin' 0 s) s =
          (Inr \<lparr>node = Some 1, listPtr = Some 0\<rparr>, \<lparr>node = Some 1, listPtr = Some 0\<rparr>) \<and>
        operator_star \<lparr>node = Some 1, listPtr = Some 0\<rparr> s = Inr 2
    | _ \<Rightarrow> False)"
  by code_simp

text \<open>
  C8.  \<open>find\<close> starts at \<open>begin()\<close>, which is \<open>head\<close>.  On the tree built by inserting
  3, 1, 2 at \<open>end()\<close>, \<open>find\<close> with a predicate that holds everywhere returns the
  iterator at the head node, which holds 3, before any step is made; the first value in
  sorted order is 1.
\<close>

theorem find_returns_head_first:
  "(case insert_all 0 [3, 1, 2::nat] init of
      Some (Inr _, s) \<Rightarrow>
        tree_nodes s 0 [0, 1, 2] \<and> values_at s [0, 1, 2] = [Some 3, Some 1, Some 2] \<and>
        find' step (\<lambda>v. True) 0 s = Some (Inr \<lparr>node = Some 0, listPtr = Some 0\<rparr>) \<and>
        operator_star \<lparr>node = Some 0, listPtr = Some 0\<rparr> s = Inr 3
    | _ \<Rightarrow> False)"
  by (simp add: insert'_def end'_def init_def new_Node_def set_next_def last_Node.simps
      tree_nodes_def values_at_def find'_def find_loop.simps begin'_def operator_neq_def
      operator_eq_def deref_def operator_star_def)

text \<open>
  C9.  Copy independence.  On the state where tree 0 holds 1, 2, 3 and tree 1 holds 9,
  the assignment of tree 0 to tree 1 runs both loops of \<open>operator=\<close>, which leave the
  values 1, 2, 3 in three new nodes, and then reaches the end of the function without a
  \<open>return\<close>.  Assigning tree 0 to itself returns at once with the state untouched, and
  the copy constructor returns.
\<close>

theorem operator_assign_flows_off_the_end:
  "map_option fst (operator_assign 1 0 two_trees) = Some (Inl MissingReturn) \<and>
   map_option (\<lambda>r. values_at (snd r) [4, 5, 6]) (operator_assign 1 0 two_trees) =
     Some [Some 1, Some 2, Some 3] \<and>
   operator_assign 0 0 two_trees = Some (Inr (), two_trees) \<and>
   map_option fst (copy_constructor 1 0 two_trees) = Some (Inr ())"
proof -
  have a: "map_option fst (operator_assign 1 0 two_trees) = Some (Inl MissingReturn)"
    by code_simp
  have b: "map_option (\<lambda>r. values_at (snd r) [4, 5, 6]) (operator_assign 1 0 two_trees) =
     Some [Some 1, Some 2, Some 3]"
    by code_simp
  have c: "operator_assign 0 0 two_trees = Some (Inr (), two_trees)"
    by (simp add: operator_assign_def)
  have d: "map_option fst (copy_constructor 1 0 two_trees) = Some (Inr ())"
    by code_simp
  from a b c d show ?thesis by blast
qed

text \<open>
  C10.  For a valid iterator at a node of the tree, \<open>remove\<close> succeeds, frees exactly
  that node, leaves the other nodes of the tree in their order and with their values,
  and changes the stored value of no other node at all; the tree has one node less.
\<close>

theorem remove_deletes_exactly_one:
  assumes "tree_nodes s this as" and "listPtr iterator = Some this"
    and "node iterator = Some n" and "n \<in> set as"
  shows "\<exists>s'. remove this iterator s = (Inr (), s') \<and>
           heap s' n = None \<and>
           tree_nodes s' this (remove1 n as) \<and>
           Suc (length (remove1 n as)) = length as \<and>
           values_at s' (remove1 n as) = values_at s (remove1 n as) \<and>
           (\<forall>a. a \<noteq> n \<longrightarrow> map_option data (heap s' a) = map_option data (heap s a))"
proof -
  from assms(4) obtain xs ys where sp: "as = xs @ n # ys" by (auto simp: in_set_conv_decomp)
  from assms(1) sp have d: "distinct (xs @ n # ys)" by (simp add: tree_nodes_def)
  then have r1: "remove1 n as = xs @ ys" unfolding sp by (simp add: remove1_append)
  from remove_valid[OF assms(1)[unfolded sp] assms(2,3)] obtain s' where
    s': "remove this iterator s = (Inr (), s')" "tree_nodes s' this (xs @ ys)" "heap s' n = None"
      "\<forall>a. a \<noteq> n \<longrightarrow> map_option data (heap s' a) = map_option data (heap s a)"
    by blast
  from s'(4) d have "values_at s' (xs @ ys) = values_at s (xs @ ys)"
    by (intro values_at_cong) auto
  with s' r1 sp show ?thesis by simp
qed

theorem remove_deletes_exactly_one_witness:
  "\<exists>s'. remove 0 \<lparr>node = Some 1, listPtr = Some 0\<rparr> three_nodes = (Inr (), s') \<and>
     heap s' 1 = None \<and> tree_nodes s' 0 [0, 2] \<and> length [0, 2::nat] + 1 = length [0, 1, 2::nat] \<and>
     values_at s' [0, 2] = [Some 1, Some 3]"
  using remove_deletes_exactly_one [of three_nodes 0 "[0, 1, 2]" "\<lparr>node = Some 1, listPtr = Some 0\<rparr>" 1]
  by (auto simp: three_nodes_def tree_nodes_def values_at_def)

end
